theory Spec2Isabelle
  imports Main "HOL-Library.Sublist"
begin

section \<open>Exceptions\<close>

text \<open>
  The exceptions that \<^verbatim>\<open>backend/scraper.py\<close> distinguishes. In Selenium every one of
  \<^verbatim>\<open>TimeoutException\<close>, \<^verbatim>\<open>NoSuchElementException\<close>,
  \<^verbatim>\<open>ElementClickInterceptedException\<close> and \<^verbatim>\<open>StaleElementReferenceException\<close> is a
  subclass of \<^verbatim>\<open>WebDriverException\<close>; \<open>OtherException\<close> stands for any Python
  \<^verbatim>\<open>Exception\<close> that is not a \<^verbatim>\<open>WebDriverException\<close>.
\<close>

datatype exn =
    TimeoutException
  | NoSuchElementException
  | ElementClickInterceptedException
  | StaleElementReferenceException
  | WebDriverException
  | OtherException

fun is_WebDriverException :: "exn \<Rightarrow> bool" where
  "is_WebDriverException OtherException = False"
| "is_WebDriverException _ = True"

section \<open>Python string operations\<close>

text \<open>
  A Python \<^verbatim>\<open>str\<close> is modelled as a \<open>string\<close>; one \<open>char\<close> stands for one character of
  the Python string, so \<open>length\<close> is Python's \<^verbatim>\<open>len\<close>.
\<close>

text \<open>\<^verbatim>\<open>needle in haystack\<close> on strings: \<open>needle\<close> occurs as a contiguous substring.\<close>

fun str_contains :: "string \<Rightarrow> string \<Rightarrow> bool" where
  "str_contains needle [] = (needle = [])"
| "str_contains needle (c # cs) = (prefix needle (c # cs) \<or> str_contains needle cs)"

text \<open>\<^verbatim>\<open>s.strip(chars)\<close>: drop every leading and trailing character that is in \<open>chars\<close>.\<close>

definition py_strip :: "string \<Rightarrow> string \<Rightarrow> string" where
  "py_strip chars s =
     rev (dropWhile (\<lambda>c. c \<in> set chars) (rev (dropWhile (\<lambda>c. c \<in> set chars) s)))"

text \<open>\<^verbatim>\<open>sep.join(parts)\<close>.\<close>

fun py_join :: "string \<Rightarrow> string list \<Rightarrow> string" where
  "py_join sep [] = []"
| "py_join sep [p] = p"
| "py_join sep (p # q # ps) = p @ sep @ py_join sep (q # ps)"

text \<open>\<^verbatim>\<open>s.lower()\<close>, on the ASCII letters.\<close>

definition lower_char :: "char \<Rightarrow> char" where
  "lower_char c =
     (case map_of (zip ''ABCDEFGHIJKLMNOPQRSTUVWXYZ'' ''abcdefghijklmnopqrstuvwxyz'') c of
        None \<Rightarrow> c
      | Some l \<Rightarrow> l)"

definition py_lower :: "string \<Rightarrow> string" where
  "py_lower s = map lower_char s"

section \<open>Commentary extraction: \<^verbatim>\<open>parse_commentary_from_soup\<close>\<close>

text \<open>
  An element of the parsed document is modelled by what the code asks of it:
  \<^verbatim>\<open>element.select_one(sel)\<close> followed by \<^verbatim>\<open>get_text(strip=True)\<close>. For a selector
  the answer is \<open>Inl e\<close> when the lookup raises \<open>e\<close>, \<open>Inr None\<close> when no sub-element
  matches, and \<open>Inr (Some t)\<close> when a sub-element matches and its text is \<open>t\<close>.
  A soup answers \<^verbatim>\<open>soup.select(sel)\<close> with the matching elements in document order.
\<close>

type_synonym element = "string \<Rightarrow> exn + string option"

type_synonym soup = "string \<Rightarrow> element list"

text \<open>
  \<^verbatim>\<open>x.get_text(strip=True) if x else ""\<close> for the result of one \<^verbatim>\<open>select_one\<close>.
\<close>

definition text_or_empty :: "string option \<Rightarrow> string" where
  "text_or_empty x = (case x of None \<Rightarrow> [] | Some t \<Rightarrow> t)"

text \<open>The three-way \<^verbatim>\<open>if / elif / else\<close> that computes \<^verbatim>\<open>over_info\<close> (lines 198-203).\<close>

definition over_info :: "string \<Rightarrow> string \<Rightarrow> string" where
  "over_info cmd_over_text ov_run_text =
     (if cmd_over_text \<noteq> [] \<and> \<not> str_contains ''('' cmd_over_text
        then cmd_over_text @ '' ('' @ ov_run_text @ '')''
      else if cmd_over_text \<noteq> []
        then cmd_over_text
      else ov_run_text)"

text \<open>Lines 206-210: join the non-empty parts with \<^verbatim>\<open>" - "\<close>, then \<^verbatim>\<open>strip(" - ")\<close>.\<close>

definition full_entry_text :: "string \<Rightarrow> string \<Rightarrow> string \<Rightarrow> string \<Rightarrow> string" where
  "full_entry_text cmd_over_text ov_run_text commentary_start_text commentary_text =
     py_strip '' - ''
       (py_join '' - ''
          (filter (\<lambda>p. p \<noteq> [])
             [over_info cmd_over_text ov_run_text, commentary_start_text, commentary_text]))"

text \<open>
  Lines 196-213: the entry that one element appends to \<^verbatim>\<open>parsed_entries\<close>, if any,
  given the four extracted texts.
\<close>

definition combine_entry :: "string \<Rightarrow> string \<Rightarrow> string \<Rightarrow> string \<Rightarrow> string option" where
  "combine_entry cmd_over_text ov_run_text commentary_start_text commentary_text =
     (if commentary_text \<noteq> [] then
        (let full = full_entry_text cmd_over_text ov_run_text commentary_start_text commentary_text
         in if length full > 5 then Some full else None)
      else None)"

text \<open>
  The body of the \<^verbatim>\<open>try\<close> block (lines 183-213) for one element: the four lookups in
  the order of the source, each of which may raise, then the combination.
\<close>

definition try_element ::
  "element \<Rightarrow> string \<Rightarrow> string \<Rightarrow> string \<Rightarrow> string \<Rightarrow> exn + string option" where
  "try_element el over_selector run_selector start_text_selector text_selector =
     (case el over_selector of
        Inl e \<Rightarrow> Inl e
      | Inr cmd_over_element \<Rightarrow>
          (case el run_selector of
             Inl e \<Rightarrow> Inl e
           | Inr ov_run_element \<Rightarrow>
               (case el start_text_selector of
                  Inl e \<Rightarrow> Inl e
                | Inr start_text_element \<Rightarrow>
                    (case el text_selector of
                       Inl e \<Rightarrow> Inl e
                     | Inr text_element \<Rightarrow>
                         Inr (combine_entry (text_or_empty cmd_over_element)
                                (text_or_empty ov_run_element)
                                (text_or_empty start_text_element)
                                (text_or_empty text_element))))))"

text \<open>
  One iteration of the \<^verbatim>\<open>for\<close> loop (lines 181-217) on the state \<^verbatim>\<open>parsed_entries\<close>:
  an exception is caught by \<^verbatim>\<open>except Exception\<close> and the loop continues.
\<close>

definition parse_step ::
  "string \<Rightarrow> string \<Rightarrow> string \<Rightarrow> string \<Rightarrow> string list \<Rightarrow> element \<Rightarrow> string list" where
  "parse_step over_selector run_selector start_text_selector text_selector parsed_entries el =
     (case try_element el over_selector run_selector start_text_selector text_selector of
        Inl parse_err \<Rightarrow> parsed_entries
      | Inr None \<Rightarrow> parsed_entries
      | Inr (Some full) \<Rightarrow> parsed_entries @ [full])"

definition parse_commentary_from_soup ::
  "soup \<Rightarrow> string \<Rightarrow> string \<Rightarrow> string \<Rightarrow> string \<Rightarrow> string \<Rightarrow> string list" where
  "parse_commentary_from_soup sp commentary_event_selector over_selector run_selector
       start_text_selector text_selector =
     (let all_commentary_elements = sp commentary_event_selector
      in if all_commentary_elements = [] then []
         else rev (foldl (parse_step over_selector run_selector start_text_selector text_selector)
                     [] all_commentary_elements))"

section \<open>Navigation and scrolling: \<^verbatim>\<open>safe_get\<close>, \<^verbatim>\<open>scroll_page\<close>\<close>

definition FIXTURES_URL :: string where
  "FIXTURES_URL = ''https://www.iplt20.com/matches/fixtures''"

definition RESULTS_URL :: string where
  "RESULTS_URL = ''https://www.iplt20.com/matches/results''"

definition BASE_URL :: string where
  "BASE_URL = ''https://www.iplt20.com''"

definition MAX_SCROLL_ATTEMPTS_WITHOUT_CHANGE :: nat where
  "MAX_SCROLL_ATTEMPTS_WITHOUT_CHANGE = 3"

text \<open>
  What the browser answers while a page is scrolled: \<open>height_at n\<close> is the value of
  \<^verbatim>\<open>document.body.scrollHeight\<close> at the \<open>n\<close>-th read (read \<open>0\<close> is line 39, read
  \<open>Suc i\<close> is the one of loop iteration \<open>i\<close>); \<open>first_read_error\<close> is the exception
  raised by the read of line 39, if any; \<open>script_error i\<close> is the exception raised by an
  \<^verbatim>\<open>execute_script\<close> call of loop iteration \<open>i\<close>, if any.
\<close>

record scrolling =
  first_read_error :: "exn option"
  height_at :: "nat \<Rightarrow> int"
  script_error :: "nat \<Rightarrow> exn option"

text \<open>
  The \<^verbatim>\<open>while True\<close> loop of \<^verbatim>\<open>scroll_page\<close> (lines 41-58), started at iteration \<open>i\<close>
  with the state \<^verbatim>\<open>last_height\<close>, \<^verbatim>\<open>scroll_attempts_no_change\<close>. The loop has no
  iteration ceiling, so it is a partial function: \<open>None\<close> means that it never stops.
  When it stops, the result is the number of iterations executed and the exception
  that leaves \<^verbatim>\<open>scroll_page\<close>, if any (\<^verbatim>\<open>except WebDriverException\<close> catches only
  those).
\<close>

partial_function (option) scroll_loop ::
  "scrolling \<Rightarrow> nat \<Rightarrow> int \<Rightarrow> nat \<Rightarrow> (nat \<times> exn option) option" where
  "scroll_loop sc i last_height scroll_attempts_no_change =
     (case script_error sc i of
        Some e \<Rightarrow>
          if is_WebDriverException e then Some (Suc i, None) else Some (Suc i, Some e)
      | None \<Rightarrow>
          if height_at sc (Suc i) = last_height then
            if scroll_attempts_no_change + 1 \<ge> MAX_SCROLL_ATTEMPTS_WITHOUT_CHANGE
              then Some (Suc i, None)
            else scroll_loop sc (Suc i) (height_at sc (Suc i)) (scroll_attempts_no_change + 1)
          else scroll_loop sc (Suc i) (height_at sc (Suc i)) 0)"

definition scroll_page :: "scrolling \<Rightarrow> (nat \<times> exn option) option" where
  "scroll_page sc =
     (case first_read_error sc of
        Some e \<Rightarrow> Some (0, Some e)
      | None \<Rightarrow> scroll_loop sc 0 (height_at sc 0) 0)"

section \<open>The browser session\<close>

text \<open>
  An ancestor of a link, as far as the live detection reads it: its \<^verbatim>\<open>class\<close>
  attribute (the list of class tokens, \<open>None\<close> when the attribute is absent) and its
  text. A link tag: its \<^verbatim>\<open>href\<close> and its ancestors, nearest first, which is the
  order in which \<^verbatim>\<open>find_parent\<close> visits them.
\<close>

record ancestor =
  tag_class :: "string list option"
  tag_text :: string

record link_tag =
  tag_href :: "string option"
  tag_parents :: "ancestor list"

text \<open>
  A listing page (fixtures or results): the outcome of the wait for a match link, the
  scrolling behaviour, and the tags returned by
  \<^verbatim>\<open>soup.find_all('a', href=re.compile(r'/match/\d+/\d+'))\<close> in document order
  (\<open>Inl e\<close> when reading or parsing \<^verbatim>\<open>driver.page_source\<close> raises \<open>e\<close>).
\<close>

record listing_page =
  link_wait_error :: "exn option"
  page_scrolling :: scrolling
  match_link_tags :: "exn + link_tag list"

text \<open>
  A match page, by the interactions of \<^verbatim>\<open>scrape_match_commentary\<close> in source order:
  the wait of line 253, the \<^verbatim>\<open>find_elements\<close> calls of lines 257 and 277 (the number
  of tabs found), the read of the tab text (line 282), the wait, click and wait of
  lines 286-292, the wait of line 305, and the parsed page source (lines 309-310).
\<close>

record match_page =
  tabs_wait_error :: "exn option"
  innings_tabs :: "exn + nat"
  current_tabs :: "exn + nat"
  tab_text_error :: "exn option"
  clickable_wait_error :: "exn option"
  click_error :: "exn option"
  container_wait_error :: "exn option"
  default_wait_error :: "exn option"
  page_soup :: "exn + soup"

text \<open>
  The driver: \<open>get_error d url\<close> is the exception raised by \<^verbatim>\<open>driver.get(url)\<close>, if
  any, and the page that the browser shows after a successful navigation to a URL.
\<close>

record driver =
  get_error :: "string \<Rightarrow> exn option"
  listing_at :: "string \<Rightarrow> listing_page"
  match_at :: "string \<Rightarrow> match_page"

text \<open>
  \<^verbatim>\<open>safe_get\<close> (lines 28-35): \<open>Inr True\<close> after a successful navigation, \<open>Inr False\<close>
  when a \<^verbatim>\<open>WebDriverException\<close> was caught, \<open>Inl e\<close> when another exception leaves it.
\<close>

definition safe_get :: "driver \<Rightarrow> string \<Rightarrow> exn + bool" where
  "safe_get d url =
     (case get_error d url of
        None \<Rightarrow> Inr True
      | Some e \<Rightarrow> if is_WebDriverException e then Inr False else Inl e)"

section \<open>Match listings: \<^verbatim>\<open>scrape_live_matches\<close>, \<^verbatim>\<open>scrape_past_matches\<close>\<close>

text \<open>
  \<^verbatim>\<open>urllib.parse.urljoin\<close> is a parameter of the model: \<open>urljoin base url\<close> is \<open>Inr\<close>
  of the resolved URL, or \<open>Inl e\<close> when the call raises (as it does on a malformed
  authority).
\<close>

type_synonym urljoin = "string \<Rightarrow> string \<Rightarrow> exn + string"

text \<open>
  The pattern \<^verbatim>\<open>re.compile(r'(live|status--live)', re.IGNORECASE)\<close>, searched in one
  class token.
\<close>

definition class_re_search :: "string \<Rightarrow> bool" where
  "class_re_search token =
     (str_contains ''live'' (py_lower token) \<or> str_contains ''status--live'' (py_lower token))"

text \<open>
  Whether \<^verbatim>\<open>find_parent(class_=...)\<close> accepts an ancestor: one of its class tokens
  matches the pattern. (BeautifulSoup also tries the tokens joined by spaces; the pattern
  contains no space, so that adds no match.)
\<close>

definition class_matches :: "ancestor \<Rightarrow> bool" where
  "class_matches a =
     (case tag_class a of
        None \<Rightarrow> False
      | Some tokens \<Rightarrow> (\<exists>token \<in> set tokens. class_re_search token))"

text \<open>\<^verbatim>\<open>link_tag.find_parent(class_=...)\<close>: the nearest accepted ancestor.\<close>

definition find_parent :: "link_tag \<Rightarrow> ancestor option" where
  "find_parent link = find class_matches (tag_parents link)"

text \<open>Lines 95-101: the value of \<^verbatim>\<open>is_live\<close> for one link.\<close>

definition is_live :: "link_tag \<Rightarrow> bool" where
  "is_live link =
     (case find_parent link of
        None \<Rightarrow> False
      | Some parent_container \<Rightarrow>
          ''live'' \<in> set (case tag_class parent_container of None \<Rightarrow> [] | Some tokens \<Rightarrow> tokens)
          \<or> str_contains ''live'' (py_lower (tag_text parent_container)))"

text \<open>
  Lines 85-89 (and 145-148): the absolute URL computed for one link. \<open>Inr None\<close>: the
  link has no \<^verbatim>\<open>href\<close>, or an empty one, and is skipped; \<open>Inl e\<close>: \<^verbatim>\<open>urljoin\<close>
  raises \<open>e\<close>.
\<close>

definition absolute_url_of :: "urljoin \<Rightarrow> link_tag \<Rightarrow> exn + string option" where
  "absolute_url_of uj link =
     (case tag_href link of
        None \<Rightarrow> Inr None
      | Some match_url \<Rightarrow>
          if match_url = [] then Inr None
          else (case uj BASE_URL match_url of Inl e \<Rightarrow> Inl e | Inr u \<Rightarrow> Inr (Some u)))"

text \<open>
  The \<^verbatim>\<open>for\<close> loop of lines 84-109 on the state \<^verbatim>\<open>live_matches\<close>,
  \<^verbatim>\<open>processed_urls\<close>. An exception inside the loop is caught by the handler of line
  113, after which line 117 returns the matches collected so far.
\<close>

fun live_loop :: "urljoin \<Rightarrow> link_tag list \<Rightarrow> string list \<Rightarrow> string set \<Rightarrow> string list" where
  "live_loop uj [] live_matches processed_urls = live_matches"
| "live_loop uj (link # links) live_matches processed_urls =
     (case tag_href link of
        None \<Rightarrow> live_loop uj links live_matches processed_urls
      | Some match_url \<Rightarrow>
          if match_url = [] then live_loop uj links live_matches processed_urls
          else
            (case uj BASE_URL match_url of
               Inl e \<Rightarrow> live_matches
             | Inr absolute_url \<Rightarrow>
                 if absolute_url \<in> processed_urls
                   then live_loop uj links live_matches processed_urls
                 else live_loop uj links
                        (if is_live link then live_matches @ [absolute_url] else live_matches)
                        (insert absolute_url processed_urls)))"

text \<open>
  \<^verbatim>\<open>scrape_live_matches\<close>. \<^verbatim>\<open>safe_get\<close> is called outside the \<^verbatim>\<open>try\<close>, so an
  exception that it does not catch leaves the function (\<open>Inl\<close>); every exception
  raised later is caught and the list built so far is returned. \<open>None\<close>: the scroll
  loop never stops.
\<close>

definition scrape_live_matches :: "urljoin \<Rightarrow> driver \<Rightarrow> (exn + string list) option" where
  "scrape_live_matches uj d =
     (case safe_get d FIXTURES_URL of
        Inl e \<Rightarrow> Some (Inl e)
      | Inr ok \<Rightarrow>
          if \<not> ok then Some (Inr [])
          else
            (case link_wait_error (listing_at d FIXTURES_URL) of
               Some e \<Rightarrow> Some (Inr [])
             | None \<Rightarrow>
                 (case scroll_page (page_scrolling (listing_at d FIXTURES_URL)) of
                    None \<Rightarrow> None
                  | Some (n, Some e) \<Rightarrow> Some (Inr [])
                  | Some (n, None) \<Rightarrow>
                      (case match_link_tags (listing_at d FIXTURES_URL) of
                         Inl e \<Rightarrow> Some (Inr [])
                       | Inr links \<Rightarrow> Some (Inr (live_loop uj links [] {}))))))"

text \<open>
  A Python \<^verbatim>\<open>set\<close> of strings that is turned into a list: the model keeps the
  elements in a duplicate-free list. The order in which Python lists the elements of a
  set is not specified; the model lists them in insertion order, and no statement below
  depends on the order.
\<close>

definition set_add :: "string \<Rightarrow> string list \<Rightarrow> string list" where
  "set_add x s = (if x \<in> set s then s else s @ [x])"

text \<open>The \<^verbatim>\<open>for\<close> loop of lines 144-150 on the state \<^verbatim>\<open>past_matches_urls\<close>.\<close>

fun past_loop :: "urljoin \<Rightarrow> link_tag list \<Rightarrow> string list \<Rightarrow> string list" where
  "past_loop uj [] past_matches_urls = past_matches_urls"
| "past_loop uj (link # links) past_matches_urls =
     (case tag_href link of
        None \<Rightarrow> past_loop uj links past_matches_urls
      | Some match_url \<Rightarrow>
          if match_url = [] then past_loop uj links past_matches_urls
          else
            (case uj BASE_URL match_url of
               Inl e \<Rightarrow> past_matches_urls
             | Inr absolute_url \<Rightarrow> past_loop uj links (set_add absolute_url past_matches_urls)))"

definition scrape_past_matches :: "urljoin \<Rightarrow> driver \<Rightarrow> (exn + string list) option" where
  "scrape_past_matches uj d =
     (case safe_get d RESULTS_URL of
        Inl e \<Rightarrow> Some (Inl e)
      | Inr ok \<Rightarrow>
          if \<not> ok then Some (Inr [])
          else
            (case link_wait_error (listing_at d RESULTS_URL) of
               Some e \<Rightarrow> Some (Inr [])
             | None \<Rightarrow>
                 (case scroll_page (page_scrolling (listing_at d RESULTS_URL)) of
                    None \<Rightarrow> None
                  | Some (n, Some e) \<Rightarrow> Some (Inr [])
                  | Some (n, None) \<Rightarrow>
                      (case match_link_tags (listing_at d RESULTS_URL) of
                         Inl e \<Rightarrow> Some (Inr [])
                       | Inr links \<Rightarrow> Some (Inr (past_loop uj links []))))))"

section \<open>Commentary of one match: \<^verbatim>\<open>scrape_match_commentary\<close>\<close>

text \<open>
  Lines 251-264: the tabs found after the first wait. \<^verbatim>\<open>TimeoutException\<close> and
  \<^verbatim>\<open>NoSuchElementException\<close> are caught there and give no tabs; any other exception
  goes to the handlers of the outer \<^verbatim>\<open>try\<close>.
\<close>

definition discover_tabs :: "match_page \<Rightarrow> exn + nat" where
  "discover_tabs pg =
     (case (case tabs_wait_error pg of Some e \<Rightarrow> Inl e | None \<Rightarrow> innings_tabs pg) of
        Inl e \<Rightarrow> if e = TimeoutException \<or> e = NoSuchElementException then Inr 0 else Inl e
      | Inr n \<Rightarrow> Inr n)"

text \<open>
  Lines 284-300: wait for a clickable tab, click, wait for the container. The result
  is the exception that the \<^verbatim>\<open>except\<close> clause of line 299 does not catch, if any.
\<close>

definition click_tab :: "match_page \<Rightarrow> exn option" where
  "click_tab pg =
     (case (case clickable_wait_error pg of
              Some e \<Rightarrow> Some e
            | None \<Rightarrow>
                (case click_error pg of
                   Some e \<Rightarrow> Some e
                 | None \<Rightarrow> container_wait_error pg)) of
        None \<Rightarrow> None
      | Some e \<Rightarrow>
          if e = ElementClickInterceptedException \<or> e = StaleElementReferenceException
               \<or> e = TimeoutException
            then None
          else Some e)"

text \<open>
  Lines 308-319: read the page source and parse it with the selectors of lines 238-242.
\<close>

definition parse_current_page :: "match_page \<Rightarrow> exn + string list" where
  "parse_current_page pg =
     (case page_soup pg of
        Inl e \<Rightarrow> Inl e
      | Inr sp \<Rightarrow>
          Inr (parse_commentary_from_soup sp ''div.cmdEvent'' ''.cmdOver'' ''.ovRun''
                 ''.commentaryStartText'' ''.commentaryText''))"

text \<open>
  The body of the inner \<^verbatim>\<open>try\<close> of the single loop iteration (lines 273-319), for
  \<^verbatim>\<open>inning_index = 0\<close>. \<open>Inr\<close> carries the value of \<^verbatim>\<open>commentary_data\<close> when the
  iteration leaves the loop by \<^verbatim>\<open>break\<close>; \<open>Inl\<close> is an exception, which line 321
  catches.
\<close>

definition process_inning :: "match_page \<Rightarrow> nat \<Rightarrow> exn + string list" where
  "process_inning pg tabs =
     (if 0 < tabs then
        (case current_tabs pg of
           Inl e \<Rightarrow> Inl e
         | Inr n \<Rightarrow>
             if 0 \<ge> n then Inr []
             else
               (case tab_text_error pg of
                  Some e \<Rightarrow> Inl e
                | None \<Rightarrow>
                    (case click_tab pg of
                       Some e \<Rightarrow> Inl e
                     | None \<Rightarrow> parse_current_page pg)))
      else
        (case default_wait_error pg of
           Some e \<Rightarrow> Inl e
         | None \<Rightarrow> parse_current_page pg))"

text \<open>
  The body of the outer \<^verbatim>\<open>try\<close> (lines 246-325) up to the value returned by line 338
  or 248; \<open>Inl\<close> is an exception that reaches the handlers of lines 327-335.
\<close>

definition commentary_body :: "driver \<Rightarrow> string \<Rightarrow> exn + string list" where
  "commentary_body d url =
     (case safe_get d url of
        Inl e \<Rightarrow> Inl e
      | Inr ok \<Rightarrow>
          if \<not> ok then Inr []
          else
            (case discover_tabs (match_at d url) of
               Inl e \<Rightarrow> Inl e
             | Inr tabs \<Rightarrow>
                 (case process_inning (match_at d url) tabs of
                    Inl inning_err \<Rightarrow> Inr []
                  | Inr commentary_data \<Rightarrow> Inr commentary_data)))"

text \<open>
  \<^verbatim>\<open>scrape_match_commentary\<close>: each of the three handlers of the outer \<^verbatim>\<open>try\<close>
  returns the empty list, and \<^verbatim>\<open>except Exception\<close> catches every exception of the
  model, so the function always returns a list.
\<close>

definition scrape_match_commentary :: "driver \<Rightarrow> string \<Rightarrow> string list" where
  "scrape_match_commentary d url =
     (case commentary_body d url of
        Inl e \<Rightarrow> []
      | Inr commentary_data \<Rightarrow> commentary_data)"

section \<open>Height changes of a page\<close>

text \<open>
  The number of loop iterations among the first \<open>N\<close> in which the height read differs
  from the height read before.
\<close>

definition height_changes :: "scrolling \<Rightarrow> nat \<Rightarrow> nat" where
  "height_changes sc N =
     length (filter (\<lambda>j. height_at sc (Suc j) \<noteq> height_at sc j) [0..<N])"

section \<open>Example inputs\<close>

text \<open>
  An event element with the four sub-fields of the selectors of lines 239-242, each
  present with a text or absent, and a panel holding a list of event elements.
\<close>

definition mk_element ::
  "string option \<Rightarrow> string option \<Rightarrow> string option \<Rightarrow> string option \<Rightarrow> element" where
  "mk_element over run start txt =
     (\<lambda>sel. if sel = ''.cmdOver'' then Inr over
            else if sel = ''.ovRun'' then Inr run
            else if sel = ''.commentaryStartText'' then Inr start
            else if sel = ''.commentaryText'' then Inr txt
            else Inr None)"

definition raising_element :: "exn \<Rightarrow> element" where
  "raising_element e = (\<lambda>sel. Inl e)"

definition panel_soup :: "element list \<Rightarrow> soup" where
  "panel_soup els = (\<lambda>sel. if sel = ''div.cmdEvent'' then els else [])"

definition six_ball :: element where
  "six_ball = mk_element (Some ''6'') (Some ''Six'') (Some ''Bumrah to Kohli'')
                (Some ''SIX! Over long-on'')"

definition dot_ball :: element where
  "dot_ball = mk_element None (Some ''5.6'') (Some ''Bumrah to Kohli'') (Some ''dot ball'')"

definition single_ball :: element where
  "single_ball = mk_element None (Some ''5.5'') (Some ''Bumrah to Kohli'') (Some ''single'')"

text \<open>
  A page that loads slowly: the height is 5 at the first three reads and 7 from then
  on, and no script call fails.
\<close>

definition slow_page :: scrolling where
  "slow_page =
     \<lparr>first_read_error = None,
      height_at = (\<lambda>n. if n < 3 then 5 else 7),
      script_error = (\<lambda>i. None)\<rparr>"

text \<open>
  \<^verbatim>\<open>urljoin\<close> on references that start with a single slash, against a base without
  path: the reference is appended to the base.
\<close>

definition urljoin_abs :: urljoin where
  "urljoin_abs base url = Inr (base @ url)"

text \<open>
  The page of
  \<^verbatim>\<open><div class="status--live"><a href="/match/2024/1">MI vs CSK</a></div>\<close>
  \<^verbatim>\<open><div class="fixture"><a href="/match/2024/2">RCB vs KKR</a></div>\<close>:
  the first link lies in a container of class \<^verbatim>\<open>status--live\<close> whose text does not
  contain \<^verbatim>\<open>live\<close>, the second in a container without live marker.
\<close>

definition page_body :: ancestor where
  "page_body = \<lparr>tag_class = None, tag_text = ''MI vs CSK RCB vs KKR''\<rparr>"

definition first_link :: link_tag where
  "first_link =
     \<lparr>tag_href = Some ''/match/2024/1'',
      tag_parents = [\<lparr>tag_class = Some [''status--live''], tag_text = ''MI vs CSK''\<rparr>, page_body]\<rparr>"

definition second_link :: link_tag where
  "second_link =
     \<lparr>tag_href = Some ''/match/2024/2'',
      tag_parents = [\<lparr>tag_class = Some [''fixture''], tag_text = ''RCB vs KKR''\<rparr>, page_body]\<rparr>"

text \<open>
  A second occurrence of the first link, in a container of class \<^verbatim>\<open>live\<close>, and a
  link in a container of class \<^verbatim>\<open>status--live\<close> whose text contains \<^verbatim>\<open>LIVE\<close>.
\<close>

definition first_link_again :: link_tag where
  "first_link_again =
     \<lparr>tag_href = Some ''/match/2024/1'',
      tag_parents = [\<lparr>tag_class = Some [''live''], tag_text = ''MI vs CSK''\<rparr>, page_body]\<rparr>"

definition third_link :: link_tag where
  "third_link =
     \<lparr>tag_href = Some ''/match/2024/3'',
      tag_parents = [\<lparr>tag_class = Some [''status--live''], tag_text = ''LIVE GT vs RR''\<rparr>,
                     page_body]\<rparr>"

text \<open>
  A match page without innings tabs that shows three events, a driver that reaches every
  page and shows the given links on a listing page, and a driver whose navigation fails.
\<close>

definition plain_match_page :: match_page where
  "plain_match_page =
     \<lparr>tabs_wait_error = None, innings_tabs = Inr 0, current_tabs = Inr 0,
      tab_text_error = None, clickable_wait_error = None, click_error = None,
      container_wait_error = None, default_wait_error = None,
      page_soup = Inr (panel_soup [six_ball, dot_ball, single_ball])\<rparr>"

definition listing_driver :: "link_tag list \<Rightarrow> driver" where
  "listing_driver links =
     \<lparr>get_error = (\<lambda>url. None),
      listing_at = (\<lambda>url. \<lparr>link_wait_error = None, page_scrolling = slow_page,
                              match_link_tags = Inr links\<rparr>),
      match_at = (\<lambda>url. plain_match_page)\<rparr>"

definition unreachable_driver :: driver where
  "unreachable_driver =
     \<lparr>get_error = (\<lambda>url. Some WebDriverException),
      listing_at = (\<lambda>url. \<lparr>link_wait_error = None, page_scrolling = slow_page,
                              match_link_tags = Inr []\<rparr>),
      match_at = (\<lambda>url. plain_match_page)\<rparr>"

section \<open>Properties of the commentary extraction\<close>

lemmas commentary_defs =
  panel_soup_def mk_element_def raising_element_def six_ball_def dot_ball_def single_ball_def
  parse_commentary_from_soup_def parse_step_def try_element_def combine_entry_def
  full_entry_text_def over_info_def text_or_empty_def py_strip_def Let_def

lemma foldl_parse_step:
  "foldl (parse_step a b c d) acc els = acc @ concat (map (parse_step a b c d []) els)"
  by (induction els arbitrary: acc) (auto simp: parse_step_def split: sum.splits option.splits)

lemma parse_commentary_from_soup_concat:
  "parse_commentary_from_soup sp ev a b c d = rev (concat (map (parse_step a b c d []) (sp ev)))"
  by (simp add: parse_commentary_from_soup_def Let_def foldl_parse_step)

text \<open>
  Claim C1. The returned sequence is the reverse of the order in which the event
  elements are met in the document: it is the reversed concatenation of what each
  element contributes on its own. Hence, when the first element that yields a record
  yields \<open>full\<close>, the result is not empty and its last element is \<open>full\<close>.
\<close>

theorem parse_commentary_reverse_order:
  "parse_commentary_from_soup sp ev a b c d = rev (concat (map (parse_step a b c d []) (sp ev)))
   \<and> (\<forall>pre el post full.
          sp ev = pre @ el # post \<and> (\<forall>x \<in> set pre. parse_step a b c d [] x = [])
            \<and> parse_step a b c d [] el = [full]
          \<longrightarrow> parse_commentary_from_soup sp ev a b c d \<noteq> []
              \<and> last (parse_commentary_from_soup sp ev a b c d) = full)"
proof (intro conjI allI impI)
  show "parse_commentary_from_soup sp ev a b c d
          = rev (concat (map (parse_step a b c d []) (sp ev)))"
    by (rule parse_commentary_from_soup_concat)
next
  fix pre el post full
  assume h: "sp ev = pre @ el # post \<and> (\<forall>x \<in> set pre. parse_step a b c d [] x = [])
            \<and> parse_step a b c d [] el = [full]"
  then have "concat (map (parse_step a b c d []) pre) = []" by simp
  with h have eq: "parse_commentary_from_soup sp ev a b c d
      = rev (concat (map (parse_step a b c d []) post)) @ [full]"
    by (simp add: parse_commentary_from_soup_concat)
  show "parse_commentary_from_soup sp ev a b c d \<noteq> []" using eq by simp
  show "last (parse_commentary_from_soup sp ev a b c d) = full" using eq by simp
qed

theorem parse_commentary_reverse_order_witness:
  "parse_commentary_from_soup (panel_soup [raising_element OtherException, six_ball, dot_ball, single_ball])
      ''div.cmdEvent'' ''.cmdOver'' ''.ovRun'' ''.commentaryStartText'' ''.commentaryText''
     = rev [''6 (Six) - Bumrah to Kohli - SIX! Over long-on'',
            ''5.6 - Bumrah to Kohli - dot ball'', ''5.5 - Bumrah to Kohli - single'']
   \<and> last (parse_commentary_from_soup
             (panel_soup [raising_element OtherException, six_ball, dot_ball, single_ball])
             ''div.cmdEvent'' ''.cmdOver'' ''.ovRun'' ''.commentaryStartText'' ''.commentaryText'')
     = ''6 (Six) - Bumrah to Kohli - SIX! Over long-on''"
proof -
  let ?sp = "panel_soup [raising_element OtherException, six_ball, dot_ball, single_ball]"
  let ?step = "parse_step ''.cmdOver'' ''.ovRun'' ''.commentaryStartText'' ''.commentaryText'' []"
  have s0: "?step (raising_element OtherException) = []"
    by (simp add: commentary_defs)
  have s1: "?step six_ball = [''6 (Six) - Bumrah to Kohli - SIX! Over long-on'']"
    by (simp add: commentary_defs)
  have s2: "?step dot_ball = [''5.6 - Bumrah to Kohli - dot ball'']"
    by (simp add: commentary_defs)
  have s3: "?step single_ball = [''5.5 - Bumrah to Kohli - single'']"
    by (simp add: commentary_defs)
  have p: "?sp ''div.cmdEvent''
             = [raising_element OtherException] @ six_ball # [dot_ball, single_ball]"
    by (simp add: panel_soup_def)
  note t = parse_commentary_reverse_order
         [of ?sp "''div.cmdEvent''" "''.cmdOver''" "''.ovRun''" "''.commentaryStartText''"
             "''.commentaryText''"]
  have a: "parse_commentary_from_soup ?sp ''div.cmdEvent'' ''.cmdOver'' ''.ovRun''
             ''.commentaryStartText'' ''.commentaryText''
           = rev [''6 (Six) - Bumrah to Kohli - SIX! Over long-on'',
                  ''5.6 - Bumrah to Kohli - dot ball'', ''5.5 - Bumrah to Kohli - single'']"
    unfolding t [THEN conjunct1] p using s0 s1 s2 s3 by simp
  have b: "last (parse_commentary_from_soup ?sp ''div.cmdEvent'' ''.cmdOver'' ''.ovRun''
             ''.commentaryStartText'' ''.commentaryText'')
           = ''6 (Six) - Bumrah to Kohli - SIX! Over long-on''"
    using t [THEN conjunct2, rule_format,
             of "[raising_element OtherException]" six_ball "[dot_ball, single_ball]"
                "''6 (Six) - Bumrah to Kohli - SIX! Over long-on''"]
          p s0 s1 by simp
  show ?thesis using a b by (rule conjI)
qed


text \<open>
  Claim C2. The code of lines 198-199 writes an empty \<^verbatim>\<open>()\<close> pair: an element whose
  over label is \<^verbatim>\<open>5.6\<close>, without parenthesis, and whose run label is absent yields a
  record that contains \<^verbatim>\<open>()\<close>.
\<close>

theorem parse_commentary_empty_parens:
  "parse_commentary_from_soup
      (panel_soup [mk_element (Some ''5.6'') None (Some ''Bumrah to Kohli'') (Some ''dot ball'')])
      ''div.cmdEvent'' ''.cmdOver'' ''.ovRun'' ''.commentaryStartText'' ''.commentaryText''
     = [''5.6 () - Bumrah to Kohli - dot ball'']
   \<and> str_contains ''()'' ''5.6 () - Bumrah to Kohli - dot ball''"
  by (simp add: commentary_defs)

lemma try_element_Some_length:
  "try_element el a b c d = Inr (Some full) \<Longrightarrow> 5 < length full"
  by (auto simp: try_element_def combine_entry_def Let_def split: sum.splits if_splits)

lemma parse_step_entry_length:
  "full \<in> set (parse_step a b c d [] el) \<Longrightarrow> 5 < length full"
  by (cases "try_element el a b c d")
     (auto simp: parse_step_def split: option.splits dest: try_element_Some_length)

text \<open>
  Claim C3, as the code has it. Every string of the returned sequence has at least 6
  characters: a record whose joined text has 5 characters or fewer is never included.
\<close>

theorem parse_commentary_min_length:
  "full \<in> set (parse_commentary_from_soup sp ev a b c d) \<Longrightarrow> 6 \<le> length full"
  by (fastforce simp: parse_commentary_from_soup_concat dest: parse_step_entry_length)

theorem parse_commentary_min_length_witness:
  "''5.5 - Bumrah to Kohli - single''
     \<in> set (parse_commentary_from_soup (panel_soup [single_ball])
              ''div.cmdEvent'' ''.cmdOver'' ''.ovRun'' ''.commentaryStartText'' ''.commentaryText'')
   \<and> 6 \<le> length ''5.5 - Bumrah to Kohli - single''"
proof -
  have m: "''5.5 - Bumrah to Kohli - single''
     \<in> set (parse_commentary_from_soup (panel_soup [single_ball])
              ''div.cmdEvent'' ''.cmdOver'' ''.ovRun'' ''.commentaryStartText'' ''.commentaryText'')"
    by (simp add: commentary_defs)
  from m parse_commentary_min_length [OF m] show ?thesis by (rule conjI)
qed

text \<open>
  Claim C3, as stated, fails at length 6: an element whose only sub-field is the
  description \<^verbatim>\<open>no run\<close> yields the record \<^verbatim>\<open>no run\<close>, of 6 characters.
\<close>

theorem parse_commentary_keeps_length_six:
  "parse_commentary_from_soup (panel_soup [mk_element None None None (Some ''no run'')])
      ''div.cmdEvent'' ''.cmdOver'' ''.ovRun'' ''.commentaryStartText'' ''.commentaryText''
     = [''no run'']
   \<and> length ''no run'' \<le> 6"
  by (simp add: commentary_defs)

lemma try_element_no_text:
  "el d = Inr None \<or> el d = Inr (Some []) \<Longrightarrow>
     try_element el a b c d = Inr None \<or> (\<exists>e. try_element el a b c d = Inl e)"
  by (auto simp: try_element_def combine_entry_def text_or_empty_def split: sum.splits)

lemma parse_step_no_text:
  "el d = Inr None \<or> el d = Inr (Some []) \<Longrightarrow> parse_step a b c d acc el = acc"
  using try_element_no_text[of el d a b c] by (auto simp: parse_step_def)

text \<open>
  Claim C8. An event element whose description sub-field is absent, or present with an
  empty text, contributes no record, whatever its other sub-fields are: the result is
  that of the panel without this element.
\<close>

theorem parse_commentary_without_description:
  assumes "el d = Inr None \<or> el d = Inr (Some [])" and "sp ev = pre @ el # post"
  shows "parse_step a b c d parsed_entries el = parsed_entries
         \<and> parse_commentary_from_soup sp ev a b c d
             = parse_commentary_from_soup (sp(ev := pre @ post)) ev a b c d"
  using assms(2) parse_step_no_text [of el d a b c, OF assms(1)]
  by (simp add: parse_commentary_from_soup_concat)

theorem parse_commentary_without_description_witness:
  "parse_commentary_from_soup
      (panel_soup [six_ball, mk_element (Some ''5.6'') (Some ''W'') (Some ''Bumrah to Kohli'') None,
                   single_ball])
      ''div.cmdEvent'' ''.cmdOver'' ''.ovRun'' ''.commentaryStartText'' ''.commentaryText''
     = parse_commentary_from_soup
         ((panel_soup [six_ball, mk_element (Some ''5.6'') (Some ''W'') (Some ''Bumrah to Kohli'') None,
                   single_ball]) (''div.cmdEvent'' := [six_ball] @ [single_ball]))
      ''div.cmdEvent'' ''.cmdOver'' ''.ovRun'' ''.commentaryStartText'' ''.commentaryText''"
proof -
  let ?el = "mk_element (Some ''5.6'') (Some ''W'') (Some ''Bumrah to Kohli'') None"
  have h1: "?el ''.commentaryText'' = Inr None \<or> ?el ''.commentaryText'' = Inr (Some [])"
    by (simp add: mk_element_def)
  have h2: "panel_soup [six_ball, ?el, single_ball] ''div.cmdEvent''
              = [six_ball] @ ?el # [single_ball]"
    by (simp add: panel_soup_def)
  from parse_commentary_without_description
         [where el = ?el and d = "''.commentaryText''"
            and sp = "panel_soup [six_ball, ?el, single_ball]" and ev = "''div.cmdEvent''"
            and pre = "[six_ball]" and post = "[single_ball]", OF h1 h2, THEN conjunct2]
  show ?thesis .
qed

text \<open>
  Claim C9. When the parsing of one event element raises, the exception is caught and
  only this element is skipped: the result is that of the panel without it, so every
  other element is processed and its record is in the result.
\<close>

theorem parse_commentary_skips_raising_element:
  assumes "try_element el a b c d = Inl e" and "sp ev = pre @ el # post"
  shows "parse_commentary_from_soup sp ev a b c d
           = parse_commentary_from_soup (sp(ev := pre @ post)) ev a b c d"
  using assms by (simp add: parse_commentary_from_soup_concat parse_step_def)

theorem parse_commentary_skips_raising_element_witness:
  "parse_commentary_from_soup
      (panel_soup [six_ball, raising_element OtherException, single_ball])
      ''div.cmdEvent'' ''.cmdOver'' ''.ovRun'' ''.commentaryStartText'' ''.commentaryText''
     = parse_commentary_from_soup
         ((panel_soup [six_ball, raising_element OtherException, single_ball])
            (''div.cmdEvent'' := [six_ball] @ [single_ball]))
      ''div.cmdEvent'' ''.cmdOver'' ''.ovRun'' ''.commentaryStartText'' ''.commentaryText''
   \<and> parse_commentary_from_soup
         ((panel_soup [six_ball, raising_element OtherException, single_ball])
            (''div.cmdEvent'' := [six_ball] @ [single_ball]))
      ''div.cmdEvent'' ''.cmdOver'' ''.ovRun'' ''.commentaryStartText'' ''.commentaryText''
     = [''5.5 - Bumrah to Kohli - single'', ''6 (Six) - Bumrah to Kohli - SIX! Over long-on'']"
proof -
  have h1: "try_element (raising_element OtherException) ''.cmdOver'' ''.ovRun''
              ''.commentaryStartText'' ''.commentaryText'' = Inl OtherException"
    by (simp add: try_element_def raising_element_def)
  have h2: "panel_soup [six_ball, raising_element OtherException, single_ball] ''div.cmdEvent''
              = [six_ball] @ raising_element OtherException # [single_ball]"
    by (simp add: panel_soup_def)
  have v: "parse_commentary_from_soup
         ((panel_soup [six_ball, raising_element OtherException, single_ball])
            (''div.cmdEvent'' := [six_ball] @ [single_ball]))
      ''div.cmdEvent'' ''.cmdOver'' ''.ovRun'' ''.commentaryStartText'' ''.commentaryText''
     = [''5.5 - Bumrah to Kohli - single'', ''6 (Six) - Bumrah to Kohli - SIX! Over long-on'']"
    by (simp add: commentary_defs)
  from parse_commentary_skips_raising_element
         [where el = "raising_element OtherException" and e = OtherException
            and sp = "panel_soup [six_ball, raising_element OtherException, single_ball]"
            and ev = "''div.cmdEvent''" and pre = "[six_ball]" and post = "[single_ball]",
          OF h1 h2] v
  show ?thesis by (rule conjI)
qed

section \<open>Termination of the scroll loop\<close>

lemma scroll_loop_stops:
  assumes stable: "\<forall>j\<ge>N. height_at sc j = height_at sc N"
  shows "c < 3 \<Longrightarrow>
         3 * length (filter (\<lambda>j. height_at sc (Suc j) \<noteq> height_at sc j) [i..<N]) + (3 - c) \<le> m \<Longrightarrow>
         \<exists>n r. scroll_loop sc i (height_at sc i) c = Some (n, r) \<and> n \<le> i + m"
proof (induction m arbitrary: i c)
  case 0
  then show ?case by simp
next
  case (Suc m)
  let ?chg = "\<lambda>j. height_at sc (Suc j) \<noteq> height_at sc j"
  show ?case
  proof (cases "script_error sc i")
    case (Some e)
    then show ?thesis by (subst scroll_loop.simps) simp
  next
    case None
    show ?thesis
    proof (cases "height_at sc (Suc i) = height_at sc i")
      case same: True
      have flt: "filter ?chg [i..<N] = filter ?chg [Suc i..<N]"
        using same by (cases "i < N") (simp_all add: upt_conv_Cons)
      show ?thesis
      proof (cases "c + 1 \<ge> MAX_SCROLL_ATTEMPTS_WITHOUT_CHANGE")
        case True
        then show ?thesis using None same by (subst scroll_loop.simps) simp
      next
        case False
        then have c1: "c + 1 < 3" by (simp add: MAX_SCROLL_ATTEMPTS_WITHOUT_CHANGE_def)
        have "length (filter ?chg [i..<N]) = length (filter ?chg [Suc i..<N])"
          by (simp only: flt)
        with Suc.prems(2) c1
        have "3 * length (filter ?chg [Suc i..<N]) + (3 - (c + 1)) \<le> m"
          by linarith
        from Suc.IH [OF c1 this] obtain n r where
          "scroll_loop sc (Suc i) (height_at sc (Suc i)) (c + 1) = Some (n, r)" "n \<le> Suc i + m"
          by blast
        then show ?thesis using None same False by (subst scroll_loop.simps) simp
      qed
    next
      case diff: False
      have iN: "i < N"
      proof (rule ccontr)
        assume "\<not> i < N"
        then have "N \<le> i" "N \<le> Suc i" by simp_all
        with stable have "height_at sc (Suc i) = height_at sc N" "height_at sc i = height_at sc N"
          by blast+
        with diff show False by simp
      qed
      then have flt: "filter ?chg [i..<N] = i # filter ?chg [Suc i..<N]"
        using diff by (simp add: upt_conv_Cons)
      have "length (filter ?chg [i..<N]) = Suc (length (filter ?chg [Suc i..<N]))"
        by (simp only: flt list.size)
      with Suc.prems
      have le: "3 * length (filter ?chg [Suc i..<N]) + (3 - 0) \<le> m"
        by linarith
      have c0: "(0::nat) < 3" by simp
      from Suc.IH [OF c0 le] obtain n r where
        "scroll_loop sc (Suc i) (height_at sc (Suc i)) 0 = Some (n, r)" "n \<le> Suc i + m"
        by blast
      then show ?thesis using None diff by (subst scroll_loop.simps) simp
    qed
  qed
qed

lemma scroll_loop_stops_after_stable:
  assumes stable: "\<forall>j\<ge>N. height_at sc j = height_at sc N"
  shows "c < 3 \<Longrightarrow> i \<le> N \<Longrightarrow>
         \<exists>n r. scroll_loop sc i (height_at sc i) c = Some (n, r) \<and> n \<le> N + 3"
proof (induction "N - i" arbitrary: i c)
  case 0
  then have iN: "i = N" by simp
  have le: "3 * length (filter (\<lambda>j. height_at sc (Suc j) \<noteq> height_at sc j) [N..<N]) + (3 - c) \<le> 3"
    by simp
  from scroll_loop_stops [OF stable \<open>c < 3\<close> le] obtain n r where
    "scroll_loop sc N (height_at sc N) c = Some (n, r)" "n \<le> N + 3"
    by blast
  then show ?case unfolding iN by blast
next
  case (Suc k)
  then have iN: "Suc i \<le> N" and k: "k = N - Suc i" by simp_all
  show ?case
  proof (cases "script_error sc i")
    case (Some e)
    then show ?thesis using iN by (subst scroll_loop.simps) simp
  next
    case None
    show ?thesis
    proof (cases "height_at sc (Suc i) = height_at sc i")
      case same: True
      show ?thesis
      proof (cases "c + 1 \<ge> MAX_SCROLL_ATTEMPTS_WITHOUT_CHANGE")
        case True
        then show ?thesis using None same iN by (subst scroll_loop.simps) simp
      next
        case False
        then have c1: "c + 1 < 3" by (simp add: MAX_SCROLL_ATTEMPTS_WITHOUT_CHANGE_def)
        from Suc.hyps(1) [OF k c1 iN] obtain n r where
          "scroll_loop sc (Suc i) (height_at sc (Suc i)) (c + 1) = Some (n, r)" "n \<le> N + 3"
          by blast
        then show ?thesis using None same False by (subst scroll_loop.simps) simp
      qed
    next
      case diff: False
      have c0: "(0::nat) < 3" by simp
      from Suc.hyps(1) [OF k c0 iN] obtain n r where
        "scroll_loop sc (Suc i) (height_at sc (Suc i)) 0 = Some (n, r)" "n \<le> N + 3"
        by blast
      then show ?thesis using None diff by (subst scroll_loop.simps) simp
    qed
  qed
qed

text \<open>
  Claim C5, as the code has it. The scroll loop stops on every page whose height
  stabilizes: when the height is the same from read \<open>N\<close> on, the loop body is executed
  at most \<open>N + 3\<close> times, and at most \<open>3 * k + 3\<close> times where \<open>k\<close> is the number of
  height changes before read \<open>N\<close> (two unchanged reads may precede each change).
\<close>

theorem scroll_page_terminates:
  assumes "\<forall>j\<ge>N. height_at sc j = height_at sc N"
  shows "\<exists>n r. scroll_page sc = Some (n, r) \<and> n \<le> N + 3 \<and> n \<le> 3 * height_changes sc N + 3"
proof (cases "first_read_error sc")
  case (Some e)
  then show ?thesis by (simp add: scroll_page_def)
next
  case None
  have le: "3 * length (filter (\<lambda>j. height_at sc (Suc j) \<noteq> height_at sc j) [0..<N]) + (3 - 0)
          \<le> 3 * height_changes sc N + 3"
    by (simp add: height_changes_def)
  have c0: "(0::nat) < 3" by simp
  from scroll_loop_stops [OF assms c0 le] obtain n r where
    a: "scroll_loop sc 0 (height_at sc 0) 0 = Some (n, r)" "n \<le> 0 + (3 * height_changes sc N + 3)"
    by blast
  have z: "(0::nat) \<le> N" by simp
  from scroll_loop_stops_after_stable [OF assms c0 z] obtain n' r' where
    b: "scroll_loop sc 0 (height_at sc 0) 0 = Some (n', r')" "n' \<le> N + 3"
    by blast
  from a b have "n' = n" by simp
  with a b None show ?thesis by (simp add: scroll_page_def)
qed


theorem scroll_page_terminates_witness:
  "\<exists>n r. scroll_page slow_page = Some (n, r) \<and> n \<le> 3 + 3
            \<and> n \<le> 3 * height_changes slow_page 3 + 3"
proof -
  have h: "\<forall>j\<ge>3. height_at slow_page j = height_at slow_page 3"
    by (simp add: slow_page_def)
  from scroll_page_terminates [OF h] show ?thesis .
qed

text \<open>
  Claim C5, as stated, fails on a page whose height is 5 at the first three reads and 7
  afterwards: the height changes once, and the loop body is executed 6 times, which is
  more than \<open>1 + 3\<close>.
\<close>

theorem scroll_page_more_than_k_plus_3:
  "scroll_page slow_page = Some (6, None) \<and> height_changes slow_page 6 = 1
   \<and> \<not> (6::nat) \<le> 1 + 3"
  by (simp add: scroll_page_def slow_page_def scroll_loop.simps
        MAX_SCROLL_ATTEMPTS_WITHOUT_CHANGE_def height_changes_def upt_conv_Cons)

section \<open>Properties of the match listings\<close>

lemma scroll_page_slow_page: "scroll_page slow_page = Some (6, None)"
  by (simp add: scroll_page_def slow_page_def scroll_loop.simps MAX_SCROLL_ATTEMPTS_WITHOUT_CHANGE_def)

lemma live_loop_Cons:
  "live_loop uj (link # links) live processed =
     (case absolute_url_of uj link of
        Inl e \<Rightarrow> live
      | Inr None \<Rightarrow> live_loop uj links live processed
      | Inr (Some u) \<Rightarrow>
          if u \<in> processed then live_loop uj links live processed
          else live_loop uj links (if is_live link then live @ [u] else live) (insert u processed))"
  by (simp add: absolute_url_of_def split: option.splits sum.splits)

lemma past_loop_Cons:
  "past_loop uj (link # links) urls =
     (case absolute_url_of uj link of
        Inl e \<Rightarrow> urls
      | Inr None \<Rightarrow> past_loop uj links urls
      | Inr (Some u) \<Rightarrow> past_loop uj links (set_add u urls))"
  by (simp add: absolute_url_of_def split: option.splits sum.splits)

lemma live_loop_distinct:
  "distinct live \<Longrightarrow> set live \<subseteq> processed \<Longrightarrow> distinct (live_loop uj links live processed)"
proof (induction links arbitrary: live processed)
  case Nil
  then show ?case by simp
next
  case (Cons link links)
  have step: "distinct (live_loop uj links (if is_live link then live @ [u] else live) (insert u processed))"
    if "u \<notin> processed" for u
  proof (rule Cons.IH)
    show "distinct (if is_live link then live @ [u] else live)"
      using that Cons.prems by auto
    show "set (if is_live link then live @ [u] else live) \<subseteq> insert u processed"
      using Cons.prems by auto
  qed
  show ?case
    unfolding live_loop_Cons
    using Cons.prems Cons.IH [OF Cons.prems] step
    by (simp split: sum.splits option.splits)
qed

lemma distinct_set_add: "distinct s \<Longrightarrow> distinct (set_add x s)"
  by (simp add: set_add_def)

lemma past_loop_distinct: "distinct urls \<Longrightarrow> distinct (past_loop uj links urls)"
proof (induction links arbitrary: urls)
  case Nil
  then show ?case by simp
next
  case (Cons link links)
  show ?case
    unfolding past_loop_Cons
    using Cons.prems Cons.IH [OF Cons.prems] Cons.IH [OF distinct_set_add [OF Cons.prems]]
    by (simp split: sum.splits option.splits)
qed

lemma scrape_live_matches_cases:
  "scrape_live_matches uj d = Some (Inr r) \<Longrightarrow>
     r = [] \<or> (\<exists>links. match_link_tags (listing_at d FIXTURES_URL) = Inr links
                  \<and> r = live_loop uj links [] {})"
  by (auto simp: scrape_live_matches_def split: sum.splits if_splits option.splits)

lemma scrape_past_matches_cases:
  "scrape_past_matches uj d = Some (Inr r) \<Longrightarrow>
     r = [] \<or> (\<exists>links. match_link_tags (listing_at d RESULTS_URL) = Inr links
                  \<and> r = past_loop uj links [])"
  by (auto simp: scrape_past_matches_def split: sum.splits if_splits option.splits)

text \<open>
  Claim C6. The list returned by one listing scrape, live or past, has no two equal
  entries, whatever links the page holds.
\<close>

theorem listing_scrape_distinct:
  "(\<forall>r. scrape_live_matches uj d = Some (Inr r) \<longrightarrow> distinct r)
   \<and> (\<forall>r. scrape_past_matches uj d = Some (Inr r) \<longrightarrow> distinct r)"
proof (intro conjI allI impI)
  fix r
  assume "scrape_live_matches uj d = Some (Inr r)"
  from scrape_live_matches_cases [OF this] show "distinct r"
    using live_loop_distinct [of "[]" "{}" uj] by auto
next
  fix r
  assume "scrape_past_matches uj d = Some (Inr r)"
  from scrape_past_matches_cases [OF this] show "distinct r"
    using past_loop_distinct [of "[]" uj] by auto
qed

lemmas listing_defs =
  scrape_live_matches_def scrape_past_matches_def safe_get_def listing_driver_def
  scroll_page_slow_page live_loop_Cons past_loop_Cons absolute_url_of_def set_add_def
  is_live_def find_parent_def class_matches_def class_re_search_def py_lower_def lower_char_def
  urljoin_abs_def BASE_URL_def first_link_def second_link_def first_link_again_def
  third_link_def page_body_def

lemma live_example:
  "scrape_live_matches urljoin_abs (listing_driver [third_link, third_link, second_link])
     = Some (Inr [''https://www.iplt20.com/match/2024/3''])"
  by (simp add: listing_defs)

lemma past_example:
  "scrape_past_matches urljoin_abs (listing_driver [third_link, third_link, second_link])
     = Some (Inr [''https://www.iplt20.com/match/2024/3'', ''https://www.iplt20.com/match/2024/2''])"
  by (simp add: listing_defs)

theorem listing_scrape_distinct_witness:
  "scrape_live_matches urljoin_abs (listing_driver [third_link, third_link, second_link])
     = Some (Inr [''https://www.iplt20.com/match/2024/3''])
   \<and> distinct [''https://www.iplt20.com/match/2024/3'']
   \<and> scrape_past_matches urljoin_abs (listing_driver [third_link, third_link, second_link])
     = Some (Inr [''https://www.iplt20.com/match/2024/3'', ''https://www.iplt20.com/match/2024/2''])
   \<and> distinct [''https://www.iplt20.com/match/2024/3'', ''https://www.iplt20.com/match/2024/2'']"
  using listing_scrape_distinct
          [of urljoin_abs "listing_driver [third_link, third_link, second_link]"]
        live_example past_example
  by blast


lemma live_loop_processed:
  "u \<in> processed \<Longrightarrow> u \<notin> set live \<Longrightarrow> u \<notin> set (live_loop uj links live processed)"
proof (induction links arbitrary: live processed)
  case Nil
  then show ?case by simp
next
  case (Cons link links)
  have step: "u \<notin> set (live_loop uj links (if is_live link then live @ [v] else live)
                          (insert v processed))"
    if "v \<notin> processed" for v
  proof (rule Cons.IH)
    show "u \<in> insert v processed" using Cons.prems by simp
    show "u \<notin> set (if is_live link then live @ [v] else live)"
      using that Cons.prems by auto
  qed
  show ?case
    unfolding live_loop_Cons
    using Cons.prems Cons.IH [OF Cons.prems] step
    by (simp split: sum.splits option.splits)
qed

lemma live_loop_keeps:
  "u \<in> set live \<Longrightarrow> u \<in> set (live_loop uj links live processed)"
proof (induction links arbitrary: live processed)
  case Nil
  then show ?case by simp
next
  case (Cons link links)
  have step: "u \<in> set (live_loop uj links (if is_live link then live @ [v] else live)
                          (insert v processed))" for v
    by (rule Cons.IH) (use Cons.prems in auto)
  show ?case
    unfolding live_loop_Cons
    using Cons.prems Cons.IH [OF Cons.prems] step
    by (simp split: sum.splits option.splits)
qed

lemma live_loop_first_not_live:
  assumes "absolute_url_of uj t = Inr (Some u)" and "\<not> is_live t"
  shows "\<forall>x \<in> set pre. absolute_url_of uj x \<noteq> Inr (Some u) \<Longrightarrow> u \<notin> set live \<Longrightarrow>
         u \<notin> set (live_loop uj (pre @ t # post) live processed)"
proof (induction pre arbitrary: live processed)
  case Nil
  show ?case
  proof (cases "u \<in> processed")
    case True
    then show ?thesis using assms Nil live_loop_processed [of u processed live uj post]
      by (simp add: live_loop_Cons del: live_loop.simps)
  next
    case False
    then show ?thesis
      using assms Nil live_loop_processed [of u "insert u processed" live uj post]
      by (simp add: live_loop_Cons del: live_loop.simps)
  qed
next
  case (Cons x pre)
  have rest: "\<forall>y \<in> set pre. absolute_url_of uj y \<noteq> Inr (Some u)"
    using Cons.prems by simp
  have step: "u \<notin> set (live_loop uj (pre @ t # post) (if is_live x then live @ [v] else live)
                          (insert v processed))"
    if "absolute_url_of uj x = Inr (Some v)" for v
  proof (rule Cons.IH [OF rest])
    have "v \<noteq> u" using that Cons.prems by auto
    then show "u \<notin> set (if is_live x then live @ [v] else live)"
      using Cons.prems by auto
  qed
  show ?case
    using Cons.prems Cons.IH [OF rest Cons.prems(2)] step
    by (simp add: live_loop_Cons del: live_loop.simps split: sum.splits option.splits)
qed

lemma live_loop_first_live:
  assumes "absolute_url_of uj t = Inr (Some u)" and "is_live t"
  shows "\<forall>x \<in> set pre. \<exists>v. absolute_url_of uj x = Inr v \<and> v \<noteq> Some u \<Longrightarrow> u \<notin> processed \<Longrightarrow>
         u \<in> set (live_loop uj (pre @ t # post) live processed)"
proof (induction pre arbitrary: live processed)
  case Nil
  show ?case
    using assms Nil live_loop_keeps [of u "live @ [u]" uj post "insert u processed"]
    by (simp add: live_loop_Cons del: live_loop.simps)
next
  case (Cons x pre)
  have rest: "\<forall>y \<in> set pre. \<exists>v. absolute_url_of uj y = Inr v \<and> v \<noteq> Some u"
    using Cons.prems by simp
  obtain v where v: "absolute_url_of uj x = Inr v" "v \<noteq> Some u"
    using Cons.prems by auto
  have step: "u \<in> set (live_loop uj (pre @ t # post) (if is_live x then live @ [w] else live)
                          (insert w processed))"
    if "v = Some w" for w
  proof (rule Cons.IH [OF rest])
    show "u \<notin> insert w processed" using that v Cons.prems by auto
  qed
  show ?case
    using v Cons.prems Cons.IH [OF rest Cons.prems(2)] step
    by (simp add: live_loop_Cons del: live_loop.simps split: option.splits)
qed

text \<open>
  Claim C10. Deduplication comes before the live classification and the first
  occurrence wins. When the first link of the page that resolves to \<open>u\<close> is not
  classified live, \<open>u\<close> is absent from the result, whatever the later links are; when
  it is classified live (and no \<^verbatim>\<open>urljoin\<close> call before it raises), \<open>u\<close> is in the
  result.
\<close>

theorem live_first_occurrence_wins:
  assumes "links = pre @ t # post"
    and "absolute_url_of uj t = Inr (Some u)"
  shows "(\<not> is_live t \<and> (\<forall>x \<in> set pre. absolute_url_of uj x \<noteq> Inr (Some u))
            \<longrightarrow> u \<notin> set (live_loop uj links [] {}))
       \<and> (is_live t \<and> (\<forall>x \<in> set pre. \<exists>v. absolute_url_of uj x = Inr v \<and> v \<noteq> Some u)
            \<longrightarrow> u \<in> set (live_loop uj links [] {}))"
  using assms live_loop_first_not_live [of uj t u pre "[]" post "{}"]
    live_loop_first_live [of uj t u pre "{}" post "[]"]
  by simp

theorem live_first_occurrence_wins_witness:
  "is_live first_link_again
   \<and> ''https://www.iplt20.com/match/2024/1''
        \<notin> set (live_loop urljoin_abs [second_link, first_link, first_link_again] [] {})
   \<and> ''https://www.iplt20.com/match/2024/1''
        \<in> set (live_loop urljoin_abs [second_link, first_link_again, first_link] [] {})"
proof -
  let ?u = "''https://www.iplt20.com/match/2024/1''"
  have l: "is_live first_link_again" "\<not> is_live first_link"
    by (simp_all add: listing_defs)
  have u1: "absolute_url_of urljoin_abs first_link = Inr (Some ?u)"
    and u1': "absolute_url_of urljoin_abs first_link_again = Inr (Some ?u)"
    and u2: "absolute_url_of urljoin_abs second_link = Inr (Some ''https://www.iplt20.com/match/2024/2'')"
    by (simp_all add: listing_defs)
  have p: "\<forall>x \<in> set [second_link]. absolute_url_of urljoin_abs x \<noteq> Inr (Some ?u)"
    and q: "\<forall>x \<in> set [second_link]. \<exists>v. absolute_url_of urljoin_abs x = Inr v \<and> v \<noteq> Some ?u"
    using u2 by simp_all
  have a: "?u \<notin> set (live_loop urljoin_abs [second_link, first_link, first_link_again] [] {})"
    using live_first_occurrence_wins
            [where links = "[second_link, first_link, first_link_again]" and pre = "[second_link]"
               and t = first_link and post = "[first_link_again]" and uj = urljoin_abs and u = ?u,
             OF _ u1]
          l p by simp
  have b: "?u \<in> set (live_loop urljoin_abs [second_link, first_link_again, first_link] [] {})"
    using live_first_occurrence_wins
            [where links = "[second_link, first_link_again, first_link]" and pre = "[second_link]"
               and t = first_link_again and post = "[first_link]" and uj = urljoin_abs and u = ?u,
             OF _ u1']
          l q by simp
  from l(1) a b show ?thesis by simp
qed


lemma str_contains_sublist: "str_contains needle s = sublist needle s"
  by (induction s) (simp_all add: sublist_Cons_right)

lemma class_re_search_live: "class_re_search token = str_contains ''live'' (py_lower token)"
proof -
  have "sublist ''live'' s" if "sublist ''status--live'' s" for s
  proof -
    from that obtain ps ss where "s = ps @ ''status--live'' @ ss"
      by (auto simp: sublist_def)
    then have "s = (ps @ ''status--'') @ ''live'' @ ss" by simp
    then show ?thesis unfolding sublist_def by blast
  qed
  then show ?thesis
    by (auto simp: class_re_search_def str_contains_sublist)
qed

lemma is_live_nearest:
  "is_live link \<longleftrightarrow>
     (\<exists>i < length (tag_parents link).
        class_matches (tag_parents link ! i)
        \<and> (\<forall>j < i. \<not> class_matches (tag_parents link ! j))
        \<and> (''live'' \<in> set (case tag_class (tag_parents link ! i) of None \<Rightarrow> [] | Some tokens \<Rightarrow> tokens)
             \<or> str_contains ''live'' (py_lower (tag_text (tag_parents link ! i)))))"
proof (cases "find class_matches (tag_parents link)")
  case None
  then have "\<forall>a \<in> set (tag_parents link). \<not> class_matches a"
    by (simp add: find_None_iff)
  then have "\<forall>i < length (tag_parents link). \<not> class_matches (tag_parents link ! i)"
    by simp
  with None show ?thesis by (auto simp: is_live_def find_parent_def)
next
  case (Some p)
  then obtain i where i: "i < length (tag_parents link)" "class_matches (tag_parents link ! i)"
      "p = tag_parents link ! i" "\<forall>j < i. \<not> class_matches (tag_parents link ! j)"
    by (auto simp: find_Some_iff)
  have uniq: "k = i" if "k < length (tag_parents link)" "class_matches (tag_parents link ! k)"
      "\<forall>j < k. \<not> class_matches (tag_parents link ! j)" for k
    using that i by (meson linorder_neqE_nat)
  show ?thesis
  proof
    assume "is_live link"
    with Some i show "\<exists>i < length (tag_parents link).
        class_matches (tag_parents link ! i)
        \<and> (\<forall>j < i. \<not> class_matches (tag_parents link ! j))
        \<and> (''live'' \<in> set (case tag_class (tag_parents link ! i) of None \<Rightarrow> [] | Some tokens \<Rightarrow> tokens)
             \<or> str_contains ''live'' (py_lower (tag_text (tag_parents link ! i))))"
      by (intro exI [of _ i]) (simp add: is_live_def find_parent_def)
  next
    assume "\<exists>i < length (tag_parents link).
        class_matches (tag_parents link ! i)
        \<and> (\<forall>j < i. \<not> class_matches (tag_parents link ! j))
        \<and> (''live'' \<in> set (case tag_class (tag_parents link ! i) of None \<Rightarrow> [] | Some tokens \<Rightarrow> tokens)
             \<or> str_contains ''live'' (py_lower (tag_text (tag_parents link ! i))))"
    then obtain k where k: "k < length (tag_parents link)" "class_matches (tag_parents link ! k)"
      "\<forall>j < k. \<not> class_matches (tag_parents link ! j)"
      "''live'' \<in> set (case tag_class (tag_parents link ! k) of None \<Rightarrow> [] | Some tokens \<Rightarrow> tokens)
             \<or> str_contains ''live'' (py_lower (tag_text (tag_parents link ! k)))"
      by blast
    from uniq [OF k(1) k(2) k(3)] k(4) Some i(3) show "is_live link"
      by (simp add: is_live_def find_parent_def)
  qed
qed

lemma live_loop_sound:
  "u \<in> set (live_loop uj links live processed) \<Longrightarrow>
     u \<in> set live \<or> (\<exists>l \<in> set links. absolute_url_of uj l = Inr (Some u) \<and> is_live l)"
proof (induction links arbitrary: live processed)
  case Nil
  then show ?case by simp
next
  case (Cons link links)
  show ?case
  proof (cases "absolute_url_of uj link")
    case (Inl e)
    with Cons.prems show ?thesis by (simp add: live_loop_Cons del: live_loop.simps)
  next
    case (Inr v)
    show ?thesis
    proof (cases v)
      case None
      with Inr Cons.prems have "u \<in> set (live_loop uj links live processed)"
        by (simp add: live_loop_Cons del: live_loop.simps)
      from Cons.IH [OF this] show ?thesis by auto
    next
      case (Some w)
      show ?thesis
      proof (cases "w \<in> processed")
        case True
        with Some Inr Cons.prems have "u \<in> set (live_loop uj links live processed)"
          by (simp add: live_loop_Cons del: live_loop.simps)
        from Cons.IH [OF this] show ?thesis by auto
      next
        case False
        with Some Inr Cons.prems
        have "u \<in> set (live_loop uj links (if is_live link then live @ [w] else live)
                          (insert w processed))"
          by (simp add: live_loop_Cons del: live_loop.simps)
        from Cons.IH [OF this] Some Inr show ?thesis
          by (auto split: if_splits)
      qed
    qed
  qed
qed

lemma find_after_unmatched:
  "\<forall>a \<in> set nearer. \<not> P a \<Longrightarrow> P c \<Longrightarrow> find P (nearer @ c # farther) = Some c"
  by (induction nearer) simp_all

lemma live_loop_two_links:
  assumes "absolute_url_of uj l1 = Inr (Some u1)" and "\<not> is_live l2"
  shows "live_loop uj [l1, l2] [] {} = (if is_live l1 then [u1] else [])"
  using assms
  by (simp add: live_loop_Cons del: live_loop.simps(2) split: sum.splits option.splits)


lemma class_matches_status_live: "tag_class c = Some [''status--live''] \<Longrightarrow> class_matches c"
  by (simp add: class_matches_def class_re_search_def py_lower_def lower_char_def)

lemma scenario_live_loop:
  assumes p1: "tag_parents l1 = nearer @ c # farther"
    and n1: "\<forall>a \<in> set nearer. \<not> class_matches a"
    and c: "tag_class c = Some [''status--live'']"
    and n2: "\<forall>a \<in> set (tag_parents l2). \<not> class_matches a"
    and u1: "absolute_url_of uj l1 = Inr (Some u1)"
  shows "live_loop uj [l1, l2] [] {}
           = (if str_contains ''live'' (py_lower (tag_text c)) then [u1] else [])"
proof -
  have "find_parent l1 = Some c"
    unfolding find_parent_def p1
    by (rule find_after_unmatched [OF n1 class_matches_status_live [OF c]])
  then have l1: "is_live l1 = str_contains ''live'' (py_lower (tag_text c))"
    by (simp add: is_live_def c)
  have "find_parent l2 = None"
    unfolding find_parent_def using n2 by (simp add: find_None_iff)
  then have l2: "\<not> is_live l2" by (simp add: is_live_def)
  show ?thesis unfolding live_loop_two_links [OF u1 l2] l1 ..
qed

text \<open>
  Claim C4, as the code has it. A link is classified live exactly when it has an
  ancestor whose class attribute has a token that contains \<^verbatim>\<open>live\<close>, in any case,
  and the nearest such ancestor has the class token \<^verbatim>\<open>live\<close> itself or a text that
  contains \<^verbatim>\<open>live\<close>, in any case. Every URL of the live result is that of a link
  classified live. For a page of two match links, the first with nearest such ancestor
  of class attribute \<^verbatim>\<open>status--live\<close>, the second without such an ancestor, the result
  is the URL of the first link when the text of that ancestor contains \<^verbatim>\<open>live\<close>, and
  is empty otherwise.
\<close>

theorem live_classification:
  "(is_live link \<longleftrightarrow>
      (\<exists>i < length (tag_parents link).
         class_matches (tag_parents link ! i)
         \<and> (\<forall>j < i. \<not> class_matches (tag_parents link ! j))
         \<and> (''live'' \<in> set (case tag_class (tag_parents link ! i) of None \<Rightarrow> [] | Some tokens \<Rightarrow> tokens)
              \<or> str_contains ''live'' (py_lower (tag_text (tag_parents link ! i))))))
   \<and> (class_matches a \<longleftrightarrow>
        (\<exists>tokens. tag_class a = Some tokens
           \<and> (\<exists>token \<in> set tokens. str_contains ''live'' (py_lower token))))
   \<and> (\<forall>u \<in> set (live_loop uj links [] {}).
         \<exists>l \<in> set links. absolute_url_of uj l = Inr (Some u) \<and> is_live l)
   \<and> (tag_parents l1 = nearer @ c # farther \<and> (\<forall>a \<in> set nearer. \<not> class_matches a)
        \<and> tag_class c = Some [''status--live'']
        \<and> (\<forall>a \<in> set (tag_parents l2). \<not> class_matches a)
        \<and> absolute_url_of uj l1 = Inr (Some u1)
        \<and> safe_get d FIXTURES_URL = Inr True
        \<and> link_wait_error (listing_at d FIXTURES_URL) = None
        \<and> scroll_page (page_scrolling (listing_at d FIXTURES_URL)) = Some (n, None)
        \<and> match_link_tags (listing_at d FIXTURES_URL) = Inr [l1, l2]
      \<longrightarrow> scrape_live_matches uj d
            = Some (Inr (if str_contains ''live'' (py_lower (tag_text c)) then [u1] else [])))"
proof (intro conjI ballI impI)
  show "is_live link \<longleftrightarrow>
      (\<exists>i < length (tag_parents link).
         class_matches (tag_parents link ! i)
         \<and> (\<forall>j < i. \<not> class_matches (tag_parents link ! j))
         \<and> (''live'' \<in> set (case tag_class (tag_parents link ! i) of None \<Rightarrow> [] | Some tokens \<Rightarrow> tokens)
              \<or> str_contains ''live'' (py_lower (tag_text (tag_parents link ! i)))))"
    by (rule is_live_nearest)
next
  show "class_matches a \<longleftrightarrow>
        (\<exists>tokens. tag_class a = Some tokens
           \<and> (\<exists>token \<in> set tokens. str_contains ''live'' (py_lower token)))"
    by (cases "tag_class a") (simp_all add: class_matches_def class_re_search_live)
next
  fix u
  assume "u \<in> set (live_loop uj links [] {})"
  from live_loop_sound [OF this]
  show "\<exists>l \<in> set links. absolute_url_of uj l = Inr (Some u) \<and> is_live l" by simp
next
  assume h: "tag_parents l1 = nearer @ c # farther \<and> (\<forall>a \<in> set nearer. \<not> class_matches a)
        \<and> tag_class c = Some [''status--live'']
        \<and> (\<forall>a \<in> set (tag_parents l2). \<not> class_matches a)
        \<and> absolute_url_of uj l1 = Inr (Some u1)
        \<and> safe_get d FIXTURES_URL = Inr True
        \<and> link_wait_error (listing_at d FIXTURES_URL) = None
        \<and> scroll_page (page_scrolling (listing_at d FIXTURES_URL)) = Some (n, None)
        \<and> match_link_tags (listing_at d FIXTURES_URL) = Inr [l1, l2]"
  then have "live_loop uj [l1, l2] [] {}
           = (if str_contains ''live'' (py_lower (tag_text c)) then [u1] else [])"
    using scenario_live_loop [of l1 nearer c farther l2 uj u1] by blast
  with h show "scrape_live_matches uj d
            = Some (Inr (if str_contains ''live'' (py_lower (tag_text c)) then [u1] else []))"
    by (simp add: scrape_live_matches_def)
qed

theorem live_classification_witness:
  "is_live third_link
   \<and> ''https://www.iplt20.com/match/2024/3''
        \<in> set (live_loop urljoin_abs [third_link, second_link] [] {})
   \<and> scrape_live_matches urljoin_abs (listing_driver [third_link, second_link])
       = Some (Inr [''https://www.iplt20.com/match/2024/3''])"
proof -
  let ?c = "\<lparr>tag_class = Some [''status--live''], tag_text = ''LIVE GT vs RR''\<rparr>"
  let ?d = "listing_driver [third_link, second_link]"
  note t = live_classification
             [where link = third_link and uj = urljoin_abs and links = "[third_link, second_link]"
                and ?l1.0 = third_link and ?l2.0 = second_link and nearer = "[]" and c = ?c
                and farther = "[page_body]" and ?u1.0 = "''https://www.iplt20.com/match/2024/3''"
                and d = ?d and n = 6]
  have h: "tag_parents third_link = [] @ ?c # [page_body] \<and> (\<forall>a \<in> set []. \<not> class_matches a)
        \<and> tag_class ?c = Some [''status--live'']
        \<and> (\<forall>a \<in> set (tag_parents second_link). \<not> class_matches a)
        \<and> absolute_url_of urljoin_abs third_link = Inr (Some ''https://www.iplt20.com/match/2024/3'')
        \<and> safe_get ?d FIXTURES_URL = Inr True
        \<and> link_wait_error (listing_at ?d FIXTURES_URL) = None
        \<and> scroll_page (page_scrolling (listing_at ?d FIXTURES_URL)) = Some (6, None)
        \<and> match_link_tags (listing_at ?d FIXTURES_URL) = Inr [third_link, second_link]"
    by (simp add: listing_defs)
  have s: "str_contains ''live'' (py_lower (tag_text ?c))"
    by (simp add: py_lower_def lower_char_def)
  have r: "scrape_live_matches urljoin_abs ?d = Some (Inr [''https://www.iplt20.com/match/2024/3''])"
    using t [THEN conjunct2, THEN conjunct2, THEN conjunct2, rule_format, OF h] s by simp
  have m: "''https://www.iplt20.com/match/2024/3''
        \<in> set (live_loop urljoin_abs [third_link, second_link] [] {})"
    by (simp add: listing_defs)
  have l: "is_live third_link"
    using t [THEN conjunct2, THEN conjunct2, THEN conjunct1, rule_format, OF m]
    by (auto simp: listing_defs)
  from l m r show ?thesis by simp
qed

text \<open>
  Claim C4, as stated, fails on a page whose first link lies in a container of class
  \<^verbatim>\<open>status--live\<close> with the text \<^verbatim>\<open>MI vs CSK\<close> and whose second link lies in a
  plain container: the live result is empty, not the URL of the first link.
\<close>

theorem status_live_container_not_live:
  "scrape_live_matches urljoin_abs (listing_driver [first_link, second_link]) = Some (Inr [])
   \<and> absolute_url_of urljoin_abs first_link = Inr (Some ''https://www.iplt20.com/match/2024/1'')
   \<and> tag_class (hd (tag_parents first_link)) = Some [''status--live'']
   \<and> \<not> is_live first_link"
  by (simp add: listing_defs)

section \<open>Properties of \<^verbatim>\<open>scrape_match_commentary\<close>\<close>

text \<open>
  Claim C7. When \<^verbatim>\<open>driver.get\<close> raises on the match URL, \<^verbatim>\<open>scrape_match_commentary\<close>
  returns the empty list; no exception leaves it. For a \<^verbatim>\<open>WebDriverException\<close> this is
  the \<open>False\<close> of \<^verbatim>\<open>safe_get\<close> followed by the return of line 248.
\<close>

theorem scrape_match_commentary_navigation_failure:
  "get_error d url = Some e \<Longrightarrow>
     scrape_match_commentary d url = []
     \<and> (is_WebDriverException e \<longrightarrow> safe_get d url = Inr False \<and> commentary_body d url = Inr [])"
  by (simp add: scrape_match_commentary_def commentary_body_def safe_get_def)

theorem scrape_match_commentary_navigation_failure_witness:
  "get_error unreachable_driver ''https://www.iplt20.com/match/2024/1'' = Some WebDriverException
   \<and> scrape_match_commentary unreachable_driver ''https://www.iplt20.com/match/2024/1'' = []
   \<and> safe_get unreachable_driver ''https://www.iplt20.com/match/2024/1'' = Inr False"
proof -
  have h: "get_error unreachable_driver ''https://www.iplt20.com/match/2024/1''
             = Some WebDriverException"
    by (simp add: unreachable_driver_def)
  from h scrape_match_commentary_navigation_failure [OF h] show ?thesis by simp
qed

end
